theory Spec2Isabelle
  imports Main
begin

section \<open>The link record and the store of elements\<close>

text \<open>
  The intrusive list of \<^verbatim>\<open>string_list.go\<close> threads two pointers through every
  element. An element is identified by its address (a value of the type \<open>'a\<close>); a
  pointer to an element is an \<open>'a option\<close>, with \<open>None\<close> for \<^verbatim>\<open>nil\<close>. The link
  fields of all elements live in one store, which every mutating operation takes and
  returns, so that aliasing between elements is visible in the model.
\<close>

record 'a stringEntry =
  "next" :: "'a option"
  prev :: "'a option"

type_synonym 'a heap = "'a \<Rightarrow> 'a stringEntry"

definition Next :: "'a heap \<Rightarrow> 'a \<Rightarrow> 'a option" where
  "Next h e = next (h e)"

definition Prev :: "'a heap \<Rightarrow> 'a \<Rightarrow> 'a option" where
  "Prev h e = prev (h e)"

definition SetNext :: "'a heap \<Rightarrow> 'a \<Rightarrow> 'a option \<Rightarrow> 'a heap" where
  "SetNext h e elem = h(e := (h e)\<lparr>next := elem\<rparr>)"

definition SetPrev :: "'a heap \<Rightarrow> 'a \<Rightarrow> 'a option \<Rightarrow> 'a heap" where
  "SetPrev h e elem = h(e := (h e)\<lparr>prev := elem\<rparr>)"

section \<open>The list\<close>

record 'a stringList =
  head :: "'a option"
  tail :: "'a option"

text \<open>
  A method with receiver \<^verbatim>\<open>l *stringList\<close> takes the list value and the store and
  returns both. Element arguments are non-nil pointers, hence of type \<open>'a\<close>.
\<close>

definition Reset :: "'a stringList \<Rightarrow> 'a heap \<Rightarrow> 'a stringList \<times> 'a heap" where
  "Reset l h = (l\<lparr>head := None, tail := None\<rparr>, h)"

definition Empty :: "'a stringList \<Rightarrow> bool" where
  "Empty l = (head l = None)"

definition Front :: "'a stringList \<Rightarrow> 'a option" where
  "Front l = head l"

definition Back :: "'a stringList \<Rightarrow> 'a option" where
  "Back l = tail l"

text \<open>
  The loop of \<^verbatim>\<open>Len\<close> follows \<^verbatim>\<open>next\<close> until it meets \<^verbatim>\<open>nil\<close>; on a store
  whose chain is cyclic it never returns, which is the value \<open>None\<close> here. The counter is
  a Go \<^verbatim>\<open>int\<close>; it counts distinct live elements, whose number is far below the range
  of that type, so it is an unbounded integer in the model.
\<close>

partial_function (option) Len_loop :: "'a heap \<Rightarrow> 'a option \<Rightarrow> int \<Rightarrow> int option" where
  "Len_loop h e count =
     (case e of None \<Rightarrow> Some count
      | Some x \<Rightarrow> Len_loop h (Next h x) (count + 1))"

definition Len :: "'a stringList \<Rightarrow> 'a heap \<Rightarrow> int option" where
  "Len l h = Len_loop h (Front l) 0"

text \<open>
  The iteration the source documents for its users,
  \<^verbatim>\<open>for e := l.Front(); e != nil; e = e.Next()\<close>, collecting the elements it visits,
  and its mirror image from \<^verbatim>\<open>l.Back()\<close> along \<^verbatim>\<open>Prev\<close>.
\<close>

partial_function (option) iter_next :: "'a heap \<Rightarrow> 'a option \<Rightarrow> 'a list option" where
  "iter_next h e =
     (case e of None \<Rightarrow> Some []
      | Some x \<Rightarrow> Option.bind (iter_next h (Next h x)) (\<lambda>r. Some (x # r)))"

partial_function (option) iter_prev :: "'a heap \<Rightarrow> 'a option \<Rightarrow> 'a list option" where
  "iter_prev h e =
     (case e of None \<Rightarrow> Some []
      | Some x \<Rightarrow> Option.bind (iter_prev h (Prev h x)) (\<lambda>r. Some (x # r)))"

definition Iterate :: "'a stringList \<Rightarrow> 'a heap \<Rightarrow> 'a list option" where
  "Iterate l h = iter_next h (Front l)"

definition IterateBack :: "'a stringList \<Rightarrow> 'a heap \<Rightarrow> 'a list option" where
  "IterateBack l h = iter_prev h (Back l)"

definition PushFront :: "'a stringList \<Rightarrow> 'a heap \<Rightarrow> 'a \<Rightarrow> 'a stringList \<times> 'a heap" where
  "PushFront l h e =
     (let h1 = SetNext h e (head l);
          h2 = SetPrev h1 e None
      in case head l of
           Some x \<Rightarrow> (l\<lparr>head := Some e\<rparr>, SetPrev h2 x (Some e))
         | None \<Rightarrow> (l\<lparr>tail := Some e, head := Some e\<rparr>, h2))"

definition PushBack :: "'a stringList \<Rightarrow> 'a heap \<Rightarrow> 'a \<Rightarrow> 'a stringList \<times> 'a heap" where
  "PushBack l h e =
     (let h1 = SetNext h e None;
          h2 = SetPrev h1 e (tail l)
      in case tail l of
           Some x \<Rightarrow> (l\<lparr>tail := Some e\<rparr>, SetNext h2 x (Some e))
         | None \<Rightarrow> (l\<lparr>head := Some e, tail := Some e\<rparr>, h2))"

text \<open>
  The two splicing methods dereference \<^verbatim>\<open>m.tail\<close> (resp. \<^verbatim>\<open>l.tail\<close>) without a
  test; on a nil pointer the program panics, which is the result \<open>None\<close>. The two lists
  are distinct list values over the same store.
\<close>

definition PushFrontList ::
  "'a stringList \<Rightarrow> 'a stringList \<Rightarrow> 'a heap \<Rightarrow> ('a stringList \<times> 'a stringList \<times> 'a heap) option" where
  "PushFrontList l m h =
     (case head l of
        None \<Rightarrow> Some (l\<lparr>head := head m, tail := tail m\<rparr>, m\<lparr>head := None, tail := None\<rparr>, h)
      | Some lh \<Rightarrow>
          (case head m of
             None \<Rightarrow> Some (l, m\<lparr>head := None, tail := None\<rparr>, h)
           | Some mh \<Rightarrow>
               (case tail m of
                  None \<Rightarrow> None
                | Some mt \<Rightarrow>
                    (let h1 = SetPrev h lh (tail m);
                         h2 = SetNext h1 mt (head l)
                     in Some (l\<lparr>head := head m\<rparr>, m\<lparr>head := None, tail := None\<rparr>, h2)))))"

definition PushBackList ::
  "'a stringList \<Rightarrow> 'a stringList \<Rightarrow> 'a heap \<Rightarrow> ('a stringList \<times> 'a stringList \<times> 'a heap) option" where
  "PushBackList l m h =
     (case head l of
        None \<Rightarrow> Some (l\<lparr>head := head m, tail := tail m\<rparr>, m\<lparr>head := None, tail := None\<rparr>, h)
      | Some lh \<Rightarrow>
          (case head m of
             None \<Rightarrow> Some (l, m\<lparr>head := None, tail := None\<rparr>, h)
           | Some mh \<Rightarrow>
               (case tail l of
                  None \<Rightarrow> None
                | Some lt \<Rightarrow>
                    (let h1 = SetNext h lt (head m);
                         h2 = SetPrev h1 mh (tail l)
                     in Some (l\<lparr>tail := tail m\<rparr>, m\<lparr>head := None, tail := None\<rparr>, h2)))))"

definition InsertAfter :: "'a stringList \<Rightarrow> 'a heap \<Rightarrow> 'a \<Rightarrow> 'a \<Rightarrow> 'a stringList \<times> 'a heap" where
  "InsertAfter l h b e =
     (let a = Next h b;
          h1 = SetNext h e a;
          h2 = SetPrev h1 e (Some b);
          h3 = SetNext h2 b (Some e)
      in case a of
           Some x \<Rightarrow> (l, SetPrev h3 x (Some e))
         | None \<Rightarrow> (l\<lparr>tail := Some e\<rparr>, h3))"

definition InsertBefore :: "'a stringList \<Rightarrow> 'a heap \<Rightarrow> 'a \<Rightarrow> 'a \<Rightarrow> 'a stringList \<times> 'a heap" where
  "InsertBefore l h a e =
     (let b = Prev h a;
          h1 = SetNext h e (Some a);
          h2 = SetPrev h1 e b;
          h3 = SetPrev h2 a (Some e)
      in case b of
           Some x \<Rightarrow> (l, SetNext h3 x (Some e))
         | None \<Rightarrow> (l\<lparr>head := Some e\<rparr>, h3))"

definition Remove :: "'a stringList \<Rightarrow> 'a heap \<Rightarrow> 'a \<Rightarrow> 'a stringList \<times> 'a heap" where
  "Remove l h e =
     (let p = Prev h e;
          n = Next h e;
          (l1, h1) = (case p of
                        Some x \<Rightarrow> (l, SetNext h x n)
                      | None \<Rightarrow> (if head l = Some e then l\<lparr>head := n\<rparr> else l, h));
          (l2, h2) = (case n of
                        Some x \<Rightarrow> (l1, SetPrev h1 x p)
                      | None \<Rightarrow> (if tail l1 = Some e then l1\<lparr>tail := p\<rparr> else l1, h1));
          h3 = SetNext h2 e None;
          h4 = SetPrev h3 e None
      in (l2, h4))"

section \<open>The ring\<close>

text \<open>
  The ring functions call \<^verbatim>\<open>SetPrev\<close> and \<^verbatim>\<open>SetNext\<close> on pointers read from the
  link fields; a nil pointer there is a panic, the result \<open>None\<close>.
\<close>

definition stringRingInit :: "'a heap \<Rightarrow> 'a \<Rightarrow> 'a heap" where
  "stringRingInit h e = SetPrev (SetNext h e (Some e)) e (Some e)"

definition stringRingAdd :: "'a heap \<Rightarrow> 'a \<Rightarrow> 'a \<Rightarrow> 'a heap option" where
  "stringRingAdd h old new =
     (case Next h old of
        None \<Rightarrow> None
      | Some nx \<Rightarrow>
          (let h1 = SetPrev h nx (Some new);
               h2 = SetNext h1 new (Some nx);
               h3 = SetPrev h2 new (Some old);
               h4 = SetNext h3 old (Some new)
           in Some h4))"

definition stringRingRemove :: "'a heap \<Rightarrow> 'a \<Rightarrow> 'a heap option" where
  "stringRingRemove h e =
     (case Next h e of
        None \<Rightarrow> None
      | Some nx \<Rightarrow>
          (case Prev h e of
             None \<Rightarrow> None
           | Some pv \<Rightarrow>
               (let h1 = SetPrev h nx (Some pv);
                    h2 = SetNext h1 pv (Some nx)
                in Some (stringRingInit h2 e))))"

definition stringRingEmpty :: "'a heap \<Rightarrow> 'a \<Rightarrow> bool" where
  "stringRingEmpty h e = (Next h e = Some e)"

section \<open>The consistency invariant\<close>

text \<open>
  The state of a list is described by the sequence \<open>xs\<close> of its elements, front to
  back. \<open>seg h p xs q\<close> says that \<open>xs\<close> is a doubly linked chain in the store \<open>h\<close>:
  the prev field of its first element is \<open>p\<close>, the next field of its last element is
  \<open>q\<close>, and neighbours point at each other. \<open>first_of xs q\<close> is a pointer to the
  first element of \<open>xs\<close>, or \<open>q\<close> for the empty sequence; \<open>last_of xs p\<close> is a
  pointer to the last one, or \<open>p\<close>.
\<close>

fun first_of :: "'a list \<Rightarrow> 'a option \<Rightarrow> 'a option" where
  "first_of [] q = q"
| "first_of (x # xs) q = Some x"

fun last_of :: "'a list \<Rightarrow> 'a option \<Rightarrow> 'a option" where
  "last_of [] p = p"
| "last_of (x # xs) p = last_of xs (Some x)"

fun seg :: "'a heap \<Rightarrow> 'a option \<Rightarrow> 'a list \<Rightarrow> 'a option \<Rightarrow> bool" where
  "seg h p [] q = True"
| "seg h p (x # xs) q = (Prev h x = p \<and> Next h x = first_of xs q \<and> seg h (Some x) xs q)"

text \<open>
  \<open>list_inv\<close> is the form of the invariant the proofs work with, by recursion over
  the sequence. \<open>consistent\<close> states it position by position: head and tail are nil
  exactly when there is no element; otherwise they are the first and the last element,
  the first has no predecessor and the last no successor; and the next field of every
  element but the last is the following element, whose prev field points back. A chain
  that ends in nil cannot visit an element twice, so the two forms agree
  (lemma \<open>consistent_iff\<close>).
\<close>

definition list_inv :: "'a heap \<Rightarrow> 'a stringList \<Rightarrow> 'a list \<Rightarrow> bool" where
  "list_inv h l xs =
     (distinct xs \<and> head l = first_of xs None \<and> tail l = last_of xs None \<and> seg h None xs None)"

definition consistent :: "'a heap \<Rightarrow> 'a stringList \<Rightarrow> 'a list \<Rightarrow> bool" where
  "consistent h l xs =
     ((head l = None \<longleftrightarrow> xs = []) \<and> (tail l = None \<longleftrightarrow> xs = []) \<and>
      (xs \<noteq> [] \<longrightarrow>
         head l = Some (hd xs) \<and> tail l = Some (last xs) \<and>
         Prev h (hd xs) = None \<and> Next h (last xs) = None) \<and>
      (\<forall>i. Suc i < length xs \<longrightarrow>
         Next h (xs ! i) = Some (xs ! Suc i) \<and> Prev h (xs ! Suc i) = Some (xs ! i)))"

text \<open>
  The sequences the two insertions at a position are expected to produce: \<open>e\<close> directly
  after \<open>b\<close>, and \<open>e\<close> directly before \<open>a\<close>.
\<close>

fun insert_after :: "'a \<Rightarrow> 'a \<Rightarrow> 'a list \<Rightarrow> 'a list" where
  "insert_after b e [] = []"
| "insert_after b e (x # xs) = (if x = b then x # e # xs else x # insert_after b e xs)"

fun insert_before :: "'a \<Rightarrow> 'a \<Rightarrow> 'a list \<Rightarrow> 'a list" where
  "insert_before a e [] = []"
| "insert_before a e (x # xs) = (if x = a then e # x # xs else x # insert_before a e xs)"

section \<open>A concrete store\<close>

text \<open>
  Elements 1, 2, 3 form one list and 4, 5 another; 6 is linked nowhere; 7, 8, 9 form a
  ring. In a second store 3 is a ring of its own and 4, 5 form a ring.
\<close>

definition ex_store :: "nat heap" where
  "ex_store = (\<lambda>_. \<lparr>next = None, prev = None\<rparr>)
     (1 := \<lparr>next = Some 2, prev = None\<rparr>,
      2 := \<lparr>next = Some 3, prev = Some 1\<rparr>,
      3 := \<lparr>next = None, prev = Some 2\<rparr>,
      4 := \<lparr>next = Some 5, prev = None\<rparr>,
      5 := \<lparr>next = None, prev = Some 4\<rparr>,
      7 := \<lparr>next = Some 8, prev = Some 9\<rparr>,
      8 := \<lparr>next = Some 9, prev = Some 7\<rparr>,
      9 := \<lparr>next = Some 7, prev = Some 8\<rparr>)"

definition ex_rings :: "nat heap" where
  "ex_rings = (\<lambda>_. \<lparr>next = None, prev = None\<rparr>)
     (3 := \<lparr>next = Some 3, prev = Some 3\<rparr>,
      4 := \<lparr>next = Some 5, prev = Some 5\<rparr>,
      5 := \<lparr>next = Some 4, prev = Some 4\<rparr>)"

definition ex_l :: "nat stringList" where
  "ex_l = \<lparr>head = Some 1, tail = Some 3\<rparr>"

definition ex_m :: "nat stringList" where
  "ex_m = \<lparr>head = Some 4, tail = Some 5\<rparr>"

section \<open>Sequences of operations\<close>

text \<open>
  A sequence of \<^verbatim>\<open>PushFront\<close>, \<^verbatim>\<open>PushBack\<close> and \<^verbatim>\<open>Remove\<close> calls on one list, and
  its replay. An operation respects its precondition when the iteration of the list
  returns and the inserted element is not among the elements visited, resp. the removed
  one is.
\<close>

datatype 'a list_op = OpPushFront 'a | OpPushBack 'a | OpRemove 'a

fun apply_op :: "'a stringList \<times> 'a heap \<Rightarrow> 'a list_op \<Rightarrow> 'a stringList \<times> 'a heap" where
  "apply_op (l, h) (OpPushFront e) = PushFront l h e"
| "apply_op (l, h) (OpPushBack e) = PushBack l h e"
| "apply_op (l, h) (OpRemove e) = Remove l h e"

fun replay :: "'a stringList \<times> 'a heap \<Rightarrow> 'a list_op list \<Rightarrow> 'a stringList \<times> 'a heap" where
  "replay s [] = s"
| "replay s (p # ps) = replay (apply_op s p) ps"

fun is_member :: "'a stringList \<times> 'a heap \<Rightarrow> 'a \<Rightarrow> bool option" where
  "is_member (l, h) e = map_option (\<lambda>xs. e \<in> set xs) (Iterate l h)"

fun op_ok :: "'a stringList \<times> 'a heap \<Rightarrow> 'a list_op \<Rightarrow> bool" where
  "op_ok s (OpPushFront e) = (is_member s e = Some False)"
| "op_ok s (OpPushBack e) = (is_member s e = Some False)"
| "op_ok s (OpRemove e) = (is_member s e = Some True)"

fun ops_ok :: "'a stringList \<times> 'a heap \<Rightarrow> 'a list_op list \<Rightarrow> bool" where
  "ops_ok s [] = True"
| "ops_ok s (p # ps) = (op_ok s p \<and> ops_ok (apply_op s p) ps)"

fun is_insert :: "'a list_op \<Rightarrow> bool" where
  "is_insert (OpRemove e) = False"
| "is_insert p = True"

definition count_inserts :: "'a list_op list \<Rightarrow> nat" where
  "count_inserts ops = length (filter is_insert ops)"

definition count_removes :: "'a list_op list \<Rightarrow> nat" where
  "count_removes ops = length (filter (\<lambda>p. \<not> is_insert p) ops)"

section \<open>The ring invariant\<close>

text \<open>
  \<open>ring h xs\<close>: the elements of \<open>xs\<close>, each occurring once, form one cycle in the
  store \<open>h\<close>, in this order: next leads from each element to the following one and from
  the last to the first, prev leads back. \<open>nexts h k e\<close> is the result of \<open>k\<close> calls
  of \<^verbatim>\<open>Next()\<close> starting from \<open>e\<close>, and \<open>None\<close> if one of them returns nil;
  \<open>prevs\<close> is the same for \<^verbatim>\<open>Prev()\<close>.
\<close>

definition ring :: "'a heap \<Rightarrow> 'a list \<Rightarrow> bool" where
  "ring h xs = (xs \<noteq> [] \<and> distinct xs \<and> seg h (Some (last xs)) xs (Some (hd xs)))"

fun nexts :: "'a heap \<Rightarrow> nat \<Rightarrow> 'a \<Rightarrow> 'a option" where
  "nexts h 0 e = Some e"
| "nexts h (Suc k) e = (case Next h e of None \<Rightarrow> None | Some x \<Rightarrow> nexts h k x)"

fun prevs :: "'a heap \<Rightarrow> nat \<Rightarrow> 'a \<Rightarrow> 'a option" where
  "prevs h 0 e = Some e"
| "prevs h (Suc k) e = (case Prev h e of None \<Rightarrow> None | Some x \<Rightarrow> prevs h k x)"

section \<open>Reading a store after a write\<close>

lemma Next_SetNext [simp]: "Next (SetNext h e p) x = (if x = e then p else Next h x)"
  by (simp add: Next_def SetNext_def)

lemma Next_SetPrev [simp]: "Next (SetPrev h e p) x = Next h x"
  by (simp add: Next_def SetPrev_def)

lemma Prev_SetPrev [simp]: "Prev (SetPrev h e p) x = (if x = e then p else Prev h x)"
  by (simp add: Prev_def SetPrev_def)

lemma Prev_SetNext [simp]: "Prev (SetNext h e p) x = Prev h x"
  by (simp add: Prev_def SetNext_def)

section \<open>Segments, the invariant and the loops\<close>

lemma first_of_append [simp]: "first_of (xs @ ys) q = first_of xs (first_of ys q)"
  by (cases xs) simp_all

lemma last_of_append [simp]: "last_of (xs @ ys) p = last_of ys (last_of xs p)"
  by (induction xs arbitrary: p) simp_all

lemma last_of_eq: "last_of xs p = (if xs = [] then p else Some (last xs))"
  by (induction xs arbitrary: p) simp_all

lemma seg_append [simp]:
  "seg h p (xs @ ys) q = (seg h p xs (first_of ys q) \<and> seg h (last_of xs p) ys q)"
  by (induction xs arbitrary: p) auto

lemma seg_SetNext [simp]: "e \<notin> set xs \<Longrightarrow> seg (SetNext h e v) p xs q = seg h p xs q"
  by (induction xs arbitrary: p) auto

lemma seg_SetPrev [simp]: "e \<notin> set xs \<Longrightarrow> seg (SetPrev h e v) p xs q = seg h p xs q"
  by (induction xs arbitrary: p) auto

lemma Remove_inv_split:
  "list_inv h l (as @ e # bs) \<Longrightarrow> Remove l h e = (l', h') \<Longrightarrow>
     list_inv h' l' (as @ bs) \<and> Next h' e = None \<and> Prev h' e = None"
  apply (cases as rule: rev_cases; cases bs)
  apply (auto simp: list_inv_def Remove_def Let_def split: if_splits)
  done

lemma first_of_Some [simp]: "first_of xs (Some y) \<noteq> None"
  by (cases xs) simp_all

lemma last_of_Some [simp]: "last_of xs (Some y) \<noteq> None"
  by (induction xs arbitrary: y) simp_all

lemma iter_next_None [simp]: "iter_next h None = Some []"
  by (subst iter_next.simps) simp

lemma iter_next_Some [simp]:
  "iter_next h (Some x) = Option.bind (iter_next h (Next h x)) (\<lambda>r. Some (x # r))"
  by (subst iter_next.simps) simp

lemma iter_prev_None [simp]: "iter_prev h None = Some []"
  by (subst iter_prev.simps) simp

lemma iter_prev_Some [simp]:
  "iter_prev h (Some x) = Option.bind (iter_prev h (Prev h x)) (\<lambda>r. Some (x # r))"
  by (subst iter_prev.simps) simp

lemma Len_loop_None [simp]: "Len_loop h None c = Some c"
  by (subst Len_loop.simps) simp

lemma Len_loop_Some [simp]: "Len_loop h (Some x) c = Len_loop h (Next h x) (c + 1)"
  by (subst Len_loop.simps) simp

lemma iter_next_seg: "seg h p xs None \<Longrightarrow> iter_next h (first_of xs None) = Some xs"
  by (induction xs arbitrary: p) auto

lemma Len_loop_seg: "seg h p xs None \<Longrightarrow> Len_loop h (first_of xs None) c = Some (c + int (length xs))"
  by (induction xs arbitrary: p c) auto

lemma seg_snoc: "seg h p (xs @ [x]) q = (seg h p xs (Some x) \<and> Prev h x = last_of xs p \<and> Next h x = q)"
  by auto

lemma iter_prev_seg: "seg h None xs q \<Longrightarrow> iter_prev h (last_of xs None) = Some (rev xs)"
proof (induction xs arbitrary: q rule: rev_induct)
  case Nil
  then show ?case by simp
next
  case (snoc x xs)
  then show ?case by auto
qed

lemma seg_distinct: "seg h p xs None \<Longrightarrow> distinct xs"
proof (induction xs arbitrary: p)
  case Nil
  then show ?case by simp
next
  case (Cons x xs)
  have tl: "seg h (Some x) xs None" and nx: "Next h x = first_of xs None"
    using Cons.prems by simp_all
  have "x \<notin> set xs"
  proof
    assume "x \<in> set xs"
    then obtain as bs where xs: "xs = as @ x # bs"
      by (auto dest: split_list)
    from tl have "seg h (last_of as (Some x)) (x # bs) None"
      by (simp add: xs)
    from iter_next_seg [OF this] have "iter_next h (Some x) = Some (x # bs)"
      by simp
    moreover from iter_next_seg [OF Cons.prems] have "iter_next h (Some x) = Some (x # xs)"
      by simp
    ultimately have "length bs = length xs"
      by simp
    then show False
      by (simp add: xs)
  qed
  with Cons.IH [OF tl] show ?case
    by simp
qed

lemma all_Suc_less:
  "(\<forall>i. Suc i < Suc n \<longrightarrow> P i) \<longleftrightarrow> (0 < n \<longrightarrow> P 0) \<and> (\<forall>i. Suc i < n \<longrightarrow> P (Suc i))"
proof
  assume "\<forall>i. Suc i < Suc n \<longrightarrow> P i"
  then show "(0 < n \<longrightarrow> P 0) \<and> (\<forall>i. Suc i < n \<longrightarrow> P (Suc i))"
    by simp
next
  assume a: "(0 < n \<longrightarrow> P 0) \<and> (\<forall>i. Suc i < n \<longrightarrow> P (Suc i))"
  show "\<forall>i. Suc i < Suc n \<longrightarrow> P i"
  proof (intro allI impI)
    fix i
    assume "Suc i < Suc n"
    with a show "P i"
      by (cases i) auto
  qed
qed

lemma seg_index:
  "seg h p xs q \<longleftrightarrow>
     (xs \<noteq> [] \<longrightarrow> Prev h (hd xs) = p \<and> Next h (last xs) = q) \<and>
     (\<forall>i. Suc i < length xs \<longrightarrow>
        Next h (xs ! i) = Some (xs ! Suc i) \<and> Prev h (xs ! Suc i) = Some (xs ! i))"
proof (induction xs arbitrary: p)
  case Nil
  show ?case by simp
next
  case (Cons x xs)
  show ?case
  proof (cases xs)
    case Nil
    then show ?thesis by auto
  next
    case ys: (Cons y ys)
    have "seg h p (x # xs) q \<longleftrightarrow> Prev h x = p \<and> Next h x = Some y \<and> seg h (Some x) xs q"
      by (simp add: ys)
    also have "\<dots> \<longleftrightarrow> Prev h x = p \<and> Next h x = Some y \<and>
        (Prev h y = Some x \<and> Next h (last xs) = q) \<and>
        (\<forall>i. Suc i < length xs \<longrightarrow>
          Next h (xs ! i) = Some (xs ! Suc i) \<and> Prev h (xs ! Suc i) = Some (xs ! i))"
      by (subst Cons.IH) (simp add: ys)
    also have "\<dots> \<longleftrightarrow>
        (x # xs \<noteq> [] \<longrightarrow> Prev h (hd (x # xs)) = p \<and> Next h (last (x # xs)) = q) \<and>
        (\<forall>i. Suc i < length (x # xs) \<longrightarrow>
          Next h ((x # xs) ! i) = Some ((x # xs) ! Suc i) \<and>
          Prev h ((x # xs) ! Suc i) = Some ((x # xs) ! i))"
      using all_Suc_less [of "length xs" "\<lambda>i. Next h ((x # xs) ! i) = Some ((x # xs) ! Suc i) \<and>
          Prev h ((x # xs) ! Suc i) = Some ((x # xs) ! i)"]
      by (simp add: ys) blast
    finally show ?thesis .
  qed
qed

lemma consistent_iff: "consistent h l xs \<longleftrightarrow> list_inv h l xs"
proof (cases xs)
  case Nil
  then show ?thesis by (auto simp: consistent_def list_inv_def)
next
  case (Cons y ys)
  have "list_inv h l xs \<longleftrightarrow> head l = first_of xs None \<and> tail l = last_of xs None \<and> seg h None xs None"
    using seg_distinct [of h None xs] by (auto simp: list_inv_def)
  then show ?thesis
    unfolding consistent_def seg_index [of h None xs None]
    by (auto simp: Cons last_of_eq)
qed

lemma insert_after_split: "b \<notin> set as \<Longrightarrow> insert_after b e (as @ b # bs) = as @ b # e # bs"
  by (induction as) auto

lemma insert_before_split: "a \<notin> set as \<Longrightarrow> insert_before a e (as @ a # bs) = as @ e # a # bs"
  by (induction as) auto

lemma remove1_split: "e \<notin> set as \<Longrightarrow> remove1 e (as @ e # bs) = as @ bs"
  by (induction as) auto

lemma first_of_mem: "first_of xs None = Some x \<Longrightarrow> x \<in> set xs"
  by (cases xs) auto

lemma last_of_mem: "last_of xs None = Some x \<Longrightarrow> x \<in> set xs"
  by (cases xs rule: rev_cases) auto

lemma list_inv_observe:
  assumes "list_inv h l xs"
  shows "Front l = first_of xs None" and "Back l = last_of xs None"
    and "Iterate l h = Some xs" and "IterateBack l h = Some (rev xs)"
    and "Len l h = Some (int (length xs))"
  using assms iter_next_seg [of h None xs] iter_prev_seg [of h xs None]
    Len_loop_seg [of h None xs 0]
  by (simp_all add: list_inv_def Front_def Back_def Iterate_def IterateBack_def Len_def)

lemma list_inv_empty: "list_inv h \<lparr>head = None, tail = None\<rparr> []"
  by (simp add: list_inv_def)

lemma ex_l_inv: "list_inv ex_store ex_l [1, 2, 3]"
  by (simp add: list_inv_def ex_store_def ex_l_def Next_def Prev_def)

lemma ex_m_inv: "list_inv ex_store ex_m [4, 5]"
  by (simp add: list_inv_def ex_store_def ex_m_def Next_def Prev_def)

lemma Remove_spec:
  assumes "consistent h l xs" and "e \<in> set xs"
  shows "case Remove l h e of (l', h') \<Rightarrow>
           Next h' e = None \<and> Prev h' e = None \<and>
           Front l' \<noteq> Some e \<and> Back l' \<noteq> Some e \<and>
           consistent h' l' (remove1 e xs) \<and> Iterate l' h' = Some (remove1 e xs) \<and>
           Front l' = (if Front l = Some e then Next h e else Front l) \<and>
           Back l' = (if Back l = Some e then Prev h e else Back l)"
proof -
  obtain l' h' where R: "Remove l h e = (l', h')"
    by (cases "Remove l h e")
  from assms(2) obtain as bs where xs: "xs = as @ e # bs" and as: "e \<notin> set as"
    by (auto dest: split_list_first)
  from assms(1) have inv: "list_inv h l (as @ e # bs)"
    by (simp add: consistent_iff xs)
  then have bs: "e \<notin> set bs"
    by (simp add: list_inv_def)
  from Remove_inv_split [OF inv R]
  have inv': "list_inv h' l' (as @ bs)" and links: "Next h' e = None" "Prev h' e = None"
    by simp_all
  have ends: "Front l' \<noteq> Some e" "Back l' \<noteq> Some e"
    using list_inv_observe(1,2) [OF inv'] first_of_mem [of "as @ bs" e] last_of_mem [of "as @ bs" e] as bs
    by auto
  have front: "Front l' = (if Front l = Some e then Next h e else Front l)"
    using list_inv_observe(1) [OF inv'] list_inv_observe(1) [OF inv] inv as
    by (cases "as") (auto simp: list_inv_def)
  have bk: "Back l' = (if Back l = Some e then Prev h e else Back l)"
    using list_inv_observe(2) [OF inv'] list_inv_observe(2) [OF inv] inv bs
    by (cases bs rule: rev_cases) (auto simp: list_inv_def)
  show ?thesis
    using inv' links ends front bk list_inv_observe(3) [OF inv']
    by (simp add: R consistent_iff xs remove1_split [OF as])
qed

lemma first_of_SomeD: "first_of xs (Some y) = Some x \<Longrightarrow> x = y \<or> x \<in> set xs"
  by (cases xs) auto

lemma last_of_SomeD: "last_of xs (Some y) = Some x \<Longrightarrow> x = y \<or> x \<in> set xs"
  by (cases xs rule: rev_cases) auto

lemma PushFront_spec:
  assumes "list_inv h l xs" and "e \<notin> set xs" and "PushFront l h e = (l', h')"
  shows "Front l' = Some e \<and> Prev h' e = None \<and> Next h' e = Front l \<and>
         (\<forall>x. Front l = Some x \<longrightarrow> Prev h' x = Some e) \<and>
         Back l' = (if Empty l then Some e else Back l) \<and>
         list_inv h' l' (e # xs)"
  using assms
  by (cases xs) (auto simp: list_inv_def PushFront_def Let_def Front_def Back_def Empty_def)

lemma PushBack_spec:
  assumes "list_inv h l xs" and "e \<notin> set xs" and "PushBack l h e = (l', h')"
  shows "Back l' = Some e \<and> Next h' e = None \<and> Prev h' e = Back l \<and>
         (\<forall>x. Back l = Some x \<longrightarrow> Next h' x = Some e) \<and>
         Front l' = (if Empty l then Some e else Front l) \<and>
         list_inv h' l' (xs @ [e])"
  using assms
  by (cases xs rule: rev_cases) (auto simp: list_inv_def PushBack_def Let_def Front_def Back_def Empty_def)

lemma InsertAfter_spec:
  assumes "list_inv h l xs" and "b \<in> set xs" and "e \<notin> set xs" and "InsertAfter l h b e = (l', h')"
  shows "Next h' b = Some e \<and> Prev h' e = Some b \<and> Next h' e = Next h b \<and>
         (\<forall>x. Next h b = Some x \<longrightarrow> Prev h' x = Some e) \<and>
         Back l' = (if Back l = Some b then Some e else Back l) \<and> Front l' = Front l \<and>
         list_inv h' l' (insert_after b e xs)"
proof -
  from assms(2) obtain us vs where xs: "xs = us @ b # vs" and us: "b \<notin> set us"
    by (auto dest: split_list_first)
  show ?thesis
    using assms(1,3,4) us unfolding xs insert_after_split [OF us]
    by (cases vs) (auto simp: list_inv_def InsertAfter_def Let_def Front_def Back_def dest: last_of_SomeD)
qed

lemma InsertBefore_spec:
  assumes "list_inv h l xs" and "a \<in> set xs" and "e \<notin> set xs" and "InsertBefore l h a e = (l', h')"
  shows "Prev h' a = Some e \<and> Next h' e = Some a \<and> Prev h' e = Prev h a \<and>
         (\<forall>x. Prev h a = Some x \<longrightarrow> Next h' x = Some e) \<and>
         Front l' = (if Front l = Some a then Some e else Front l) \<and> Back l' = Back l \<and>
         list_inv h' l' (insert_before a e xs)"
proof -
  from assms(2) obtain us vs where xs: "xs = us @ a # vs" and us: "a \<notin> set us"
    by (auto dest: split_list_first)
  show ?thesis
    using assms(1,3,4) us unfolding xs insert_before_split [OF us]
    by (cases us rule: rev_cases)
       (auto simp: list_inv_def InsertBefore_def Let_def Front_def Back_def dest: first_of_SomeD)
qed

lemma PushFrontList_spec:
  assumes "list_inv h l xs" and "list_inv h m ys" and "set xs \<inter> set ys = {}"
  shows "case PushFrontList l m h of None \<Rightarrow> False
         | Some (l', m', h') \<Rightarrow>
             list_inv h' l' (ys @ xs) \<and> list_inv h' m' [] \<and>
             (xs = [] \<longrightarrow> head l' = head m \<and> tail l' = tail m \<and> h' = h) \<and>
             (ys = [] \<longrightarrow> head l' = head l \<and> tail l' = tail l \<and> h' = h)"
  using assms
  by (cases xs; cases ys rule: rev_cases)
     (auto simp: list_inv_def PushFrontList_def Let_def split: option.splits)

lemma PushBackList_spec:
  assumes "list_inv h l xs" and "list_inv h m ys" and "set xs \<inter> set ys = {}"
  shows "case PushBackList l m h of None \<Rightarrow> False
         | Some (l', m', h') \<Rightarrow>
             list_inv h' l' (xs @ ys) \<and> list_inv h' m' [] \<and>
             (xs = [] \<longrightarrow> head l' = head m \<and> tail l' = tail m \<and> h' = h) \<and>
             (ys = [] \<longrightarrow> head l' = head l \<and> tail l' = tail l \<and> h' = h)"
  using assms
  by (cases xs rule: rev_cases; cases ys)
     (auto simp: list_inv_def PushBackList_def Let_def split: option.splits)

lemma list_inv_Nil: "list_inv h l [] \<longleftrightarrow> head l = None \<and> tail l = None"
  by (simp add: list_inv_def)

lemma apply_op_inv:
  assumes "list_inv h l xs" and "op_ok (l, h) p"
  shows "\<exists>l' h' ys. apply_op (l, h) p = (l', h') \<and> list_inv h' l' ys \<and>
           int (length ys) = int (length xs) + (if is_insert p then 1 else - 1)"
proof (cases p)
  case (OpPushFront e)
  obtain l' h' where r: "PushFront l h e = (l', h')"
    by (cases "PushFront l h e")
  from assms have "e \<notin> set xs"
    by (simp add: OpPushFront list_inv_observe(3))
  from PushFront_spec [OF assms(1) this r] show ?thesis
    by (auto simp: OpPushFront r intro!: exI [of _ "e # xs"])
next
  case (OpPushBack e)
  obtain l' h' where r: "PushBack l h e = (l', h')"
    by (cases "PushBack l h e")
  from assms have "e \<notin> set xs"
    by (simp add: OpPushBack list_inv_observe(3))
  from PushBack_spec [OF assms(1) this r] show ?thesis
    by (auto simp: OpPushBack r intro!: exI [of _ "xs @ [e]"])
next
  case (OpRemove e)
  obtain l' h' where r: "Remove l h e = (l', h')"
    by (cases "Remove l h e")
  from assms have e: "e \<in> set xs"
    by (simp add: OpRemove list_inv_observe(3))
  from Remove_spec [of h l xs e] assms(1) e have "list_inv h' l' (remove1 e xs)"
    by (simp add: consistent_iff r)
  moreover have "int (length (remove1 e xs)) = int (length xs) - 1"
    using e length_pos_if_in_set [OF e] by (simp add: length_remove1 Suc_leI)
  ultimately show ?thesis
    by (auto simp: OpRemove r intro!: exI [of _ "remove1 e xs"])
qed

lemma replay_inv:
  assumes "list_inv h l xs" and "ops_ok (l, h) ops"
  shows "\<exists>l' h' ys. replay (l, h) ops = (l', h') \<and> list_inv h' l' ys \<and>
           int (length ys) = int (length xs) + int (count_inserts ops) - int (count_removes ops)"
  using assms
proof (induction ops arbitrary: l h xs)
  case Nil
  then show ?case
    by (auto simp: count_inserts_def count_removes_def)
next
  case (Cons p ps)
  from Cons.prems have ok: "op_ok (l, h) p" and rest: "ops_ok (apply_op (l, h) p) ps"
    by simp_all
  from apply_op_inv [OF Cons.prems(1) ok] obtain l1 h1 ys
    where s: "apply_op (l, h) p = (l1, h1)" and inv: "list_inv h1 l1 ys"
      and len: "int (length ys) = int (length xs) + (if is_insert p then 1 else - 1)"
    by blast
  from Cons.IH [OF inv] rest s obtain l' h' zs
    where r: "replay (l1, h1) ps = (l', h')" and inv': "list_inv h' l' zs"
      and len': "int (length zs) = int (length ys) + int (count_inserts ps) - int (count_removes ps)"
    by auto
  show ?case
    using r inv' len len' s
    by (auto simp: count_inserts_def count_removes_def intro!: exI [of _ zs])
qed

section \<open>Rings\<close>

lemma ex_ring: "ring ex_store [7, 8, 9]" "ring ex_rings [4, 5]" "ring ex_rings [3]"
  by (simp_all add: ring_def ex_store_def ex_rings_def Next_def Prev_def)

lemma ring_rotate1: "ring h xs \<Longrightarrow> ring h (rotate1 xs)"
proof (cases xs)
  case Nil
  then show "ring h xs \<Longrightarrow> ring h (rotate1 xs)" by (simp add: ring_def)
next
  case (Cons x ys)
  then show "ring h xs \<Longrightarrow> ring h (rotate1 xs)"
    by (cases ys) (auto simp: ring_def last_of_eq)
qed

lemma ring_rotate: "ring h xs \<Longrightarrow> ring h (rotate i xs)"
  by (induction i) (simp_all add: ring_rotate1)

lemma nexts_seg: "seg h p xs q \<Longrightarrow> j + k < length xs \<Longrightarrow> nexts h k (xs ! j) = Some (xs ! (j + k))"
proof (induction k arbitrary: j)
  case 0
  then show ?case by simp
next
  case (Suc k)
  from Suc.prems have "Next h (xs ! j) = Some (xs ! Suc j)"
    by (simp add: seg_index [of h p xs q])
  with Suc.IH [of "Suc j"] Suc.prems show ?case
    by simp
qed

lemma prevs_seg: "seg h p xs q \<Longrightarrow> j + k < length xs \<Longrightarrow> prevs h k (xs ! (j + k)) = Some (xs ! j)"
proof (induction k arbitrary: j)
  case 0
  then show ?case by simp
next
  case (Suc k)
  from Suc.prems have "Prev h (xs ! Suc (j + k)) = Some (xs ! (j + k))"
    by (simp add: seg_index [of h p xs q])
  with Suc.IH [of j] Suc.prems show ?case
    by simp
qed

lemma nexts_Suc_right:
  "nexts h (Suc k) e = (case nexts h k e of None \<Rightarrow> None | Some y \<Rightarrow> Next h y)"
proof (induction k arbitrary: e)
  case 0
  show ?case by (simp split: option.splits)
next
  case (Suc k)
  show ?case
  proof (cases "Next h e")
    case None
    then show ?thesis by simp
  next
    case (Some x)
    with Suc.IH [of x] show ?thesis by simp
  qed
qed

lemma ring_hd:
  assumes "ring h ys"
  shows "nexts h (length ys) (hd ys) = Some (hd ys)"
    and "prevs h (length ys) (hd ys) = Some (hd ys)"
    and "k < length ys \<Longrightarrow> nexts h k (hd ys) = Some (ys ! k)"
    and "k < length ys \<Longrightarrow> prevs h k (ys ! k) = Some (hd ys)"
proof -
  from assms have ne: "ys \<noteq> []" and s: "seg h (Some (last ys)) ys (Some (hd ys))"
    by (simp_all add: ring_def)
  from ne obtain n where n: "length ys = Suc n"
    by (cases ys) auto
  have h0: "hd ys = ys ! 0" and ln: "last ys = ys ! n"
    using ne n by (simp_all add: hd_conv_nth last_conv_nth)
  have nl: "Next h (last ys) = Some (hd ys)" and ph: "Prev h (hd ys) = Some (last ys)"
    using s ne by (simp_all add: seg_index [of h "Some (last ys)" ys])
  show "nexts h (length ys) (hd ys) = Some (hd ys)"
    using nexts_seg [OF s, of 0 n] nl
    by (simp add: n nexts_Suc_right h0 [symmetric] ln [symmetric] del: nexts.simps)
  show "prevs h (length ys) (hd ys) = Some (hd ys)"
    using prevs_seg [OF s, of 0 n] ph by (simp add: n h0 [symmetric] ln [symmetric])
  show "k < length ys \<Longrightarrow> nexts h k (hd ys) = Some (ys ! k)"
    using nexts_seg [OF s, of 0 k] by (simp add: h0)
  show "k < length ys \<Longrightarrow> prevs h k (ys ! k) = Some (hd ys)"
    using prevs_seg [OF s, of 0 k] by (simp add: h0)
qed

lemma ring_cycle:
  assumes "ring h xs" and "i < length xs"
  shows "nexts h (length xs) (xs ! i) = Some (xs ! i)"
    and "prevs h (length xs) (xs ! i) = Some (xs ! i)"
    and "k < length xs \<Longrightarrow> nexts h k (xs ! i) = Some (xs ! ((i + k) mod length xs))"
    and "k < length xs \<Longrightarrow> prevs h k (xs ! ((i + k) mod length xs)) = Some (xs ! i)"
proof -
  from assms have ne: "xs \<noteq> []"
    by (simp add: ring_def)
  have r: "ring h (rotate i xs)"
    using assms(1) by (rule ring_rotate)
  have hd: "hd (rotate i xs) = xs ! i"
    using assms(2) ne by (simp add: hd_rotate_conv_nth)
  show "nexts h (length xs) (xs ! i) = Some (xs ! i)"
    using ring_hd(1) [OF r] by (simp add: hd)
  show "prevs h (length xs) (xs ! i) = Some (xs ! i)"
    using ring_hd(2) [OF r] by (simp add: hd)
  show "k < length xs \<Longrightarrow> nexts h k (xs ! i) = Some (xs ! ((i + k) mod length xs))"
    using ring_hd(3) [OF r, of k] by (simp add: hd nth_rotate)
  show "k < length xs \<Longrightarrow> prevs h k (xs ! ((i + k) mod length xs)) = Some (xs ! i)"
    using ring_hd(4) [OF r, of k] by (simp add: hd nth_rotate)
qed

lemma RingInit_ring: "ring (stringRingInit h e) [e]"
  by (simp add: ring_def stringRingInit_def)

lemma RingAdd_split:
  assumes "ring h (us @ old # vs)" and "new \<notin> set (us @ old # vs)"
  shows "case stringRingAdd h old new of None \<Rightarrow> False
         | Some h' \<Rightarrow> Next h' old = Some new \<and> Prev h' new = Some old \<and>
             Next h' new = Next h old \<and> ring h' (us @ old # new # vs)"
  using assms
  apply (cases us; cases vs)
  apply (auto simp: ring_def stringRingAdd_def Let_def last_of_eq split: option.splits)
  done

lemma list_ends_cases:
  obtains "xs = []" | x where "xs = [x]" | x ys y where "xs = x # ys @ [y]"
proof (cases xs)
  case Nil
  then show ?thesis by (rule that(1))
next
  case (Cons x zs)
  show ?thesis
  proof (cases zs rule: rev_cases)
    case Nil
    with Cons show ?thesis by (simp add: that(2))
  next
    case (snoc ys y)
    with Cons show ?thesis by (simp add: that(3))
  qed
qed

lemma RingRemove_split:
  assumes "ring h (us @ e # vs)"
  shows "case stringRingRemove h e of None \<Rightarrow> False
         | Some h' \<Rightarrow> Next h' e = Some e \<and> Prev h' e = Some e \<and>
             (\<forall>p n. Prev h e = Some p \<and> Next h e = Some n \<longrightarrow>
                Next h' p = Some n \<and> Prev h' n = Some p) \<and>
             (us @ vs \<noteq> [] \<longrightarrow> ring h' (us @ vs))"
proof (cases "us = []")
  case True
  with assms show ?thesis
    by (cases vs rule: list_ends_cases)
       (auto simp: ring_def stringRingRemove_def stringRingInit_def Let_def split: option.splits)
next
  case us: False
  show ?thesis
  proof (cases "vs = []")
    case True
    with assms us show ?thesis
      by (cases us rule: list_ends_cases)
         (auto simp: ring_def stringRingRemove_def stringRingInit_def Let_def split: option.splits)
  next
    case False
    with assms us show ?thesis
      by (cases us rule: rev_cases; cases vs)
         (auto simp: ring_def stringRingRemove_def stringRingInit_def Let_def last_of_eq hd_append
           split: option.splits)
  qed
qed

lemma ring_single: "ring h [x] \<longleftrightarrow> Next h x = Some x \<and> Prev h x = Some x"
  by (auto simp: ring_def)

section \<open>Reset\<close>

text \<open>
  C9. \<^verbatim>\<open>Reset\<close> sets head and tail to nil, so the list is empty afterwards, and it
  returns the store it was given: no element's next or prev field is changed.
\<close>

theorem Reset_frame:
  "head (fst (Reset l h)) = None \<and> tail (fst (Reset l h)) = None \<and>
   Empty (fst (Reset l h)) \<and> snd (Reset l h) = h \<and>
   (\<forall>x. Next (snd (Reset l h)) x = Next h x \<and> Prev (snd (Reset l h)) x = Prev h x)"
  by (simp add: Reset_def Empty_def)

section \<open>Remove\<close>

text \<open>
  C1. Removing a member \<open>e\<close> of a consistent list leaves both link fields of \<open>e\<close>
  nil, leaves \<open>e\<close> at neither end of the list, and leaves a consistent list whose
  element sequence, also as the iteration reads it, is the previous one with \<open>e\<close>
  deleted; the head moves to the successor of \<open>e\<close> exactly when \<open>e\<close> was the head,
  the tail to its predecessor exactly when \<open>e\<close> was the tail.
\<close>

theorem Remove_member:
  assumes "consistent h l xs" and "e \<in> set xs"
  shows "case Remove l h e of (l', h') \<Rightarrow>
           Next h' e = None \<and> Prev h' e = None \<and>
           Front l' \<noteq> Some e \<and> Back l' \<noteq> Some e \<and>
           consistent h' l' (remove1 e xs) \<and> Iterate l' h' = Some (remove1 e xs) \<and>
           Front l' = (if Front l = Some e then Next h e else Front l) \<and>
           Back l' = (if Back l = Some e then Prev h e else Back l)"
  using assms by (rule Remove_spec)

theorem Remove_member_witness:
  "consistent ex_store ex_l [1, 2, 3] \<and> (2::nat) \<in> set [1, 2, 3] \<and>
   (case Remove ex_l ex_store 2 of (l', h') \<Rightarrow>
      Next h' 2 = None \<and> Prev h' 2 = None \<and> Front l' \<noteq> Some 2 \<and> Back l' \<noteq> Some 2 \<and>
      consistent h' l' [1, 3] \<and> Iterate l' h' = Some [1, 3])"
  using Remove_member [of ex_store ex_l "[1, 2, 3]" 2] ex_l_inv
  by (simp add: consistent_iff Front_def Back_def ex_l_def split: prod.splits)

text \<open>
  C10. Removing a detached element (both link fields nil, neither head nor tail of the
  list) changes neither the list nor the store; hence removing a member a second time
  changes nothing.
\<close>

theorem Remove_detached:
  "(Next h e = None \<and> Prev h e = None \<and> head l \<noteq> Some e \<and> tail l \<noteq> Some e \<longrightarrow>
      Remove l h e = (l, h)) \<and>
   (consistent h l xs \<and> e \<in> set xs \<longrightarrow>
      (case Remove l h e of (l', h') \<Rightarrow> Remove l' h' e = (l', h')))"
proof (intro conjI impI)
  show det: "Remove l h e = (l, h)"
    if "Next h e = None \<and> Prev h e = None \<and> head l \<noteq> Some e \<and> tail l \<noteq> Some e" for l :: "'a stringList" and h
    using that
    by (auto simp: Remove_def Let_def SetNext_def SetPrev_def Next_def Prev_def fun_eq_iff)
  assume "consistent h l xs \<and> e \<in> set xs"
  from Remove_spec [of h l xs e] this
  show "case Remove l h e of (l', h') \<Rightarrow> Remove l' h' e = (l', h')"
    by (auto simp: Front_def Back_def intro!: det split: prod.splits)
qed

theorem Remove_detached_witness:
  "Next ex_store 6 = None \<and> Prev ex_store 6 = None \<and> head ex_l \<noteq> Some 6 \<and> tail ex_l \<noteq> Some 6 \<and>
   Remove ex_l ex_store 6 = (ex_l, ex_store) \<and>
   consistent ex_store ex_l [1, 2, 3] \<and> (2::nat) \<in> set [1, 2, 3] \<and>
   (case Remove ex_l ex_store 2 of (l', h') \<Rightarrow> Remove l' h' 2 = (l', h'))"
  using Remove_detached [of ex_store 6 ex_l "[1, 2, 3]"] Remove_detached [of ex_store 2 ex_l "[1, 2, 3]"] ex_l_inv
  by (simp add: consistent_iff ex_store_def ex_l_def Next_def Prev_def)

section \<open>The invariant\<close>

text \<open>
  C2. Every list operation, called on a consistent list with its stated precondition
  (an inserted element is not a member, a position or a removed element is a member, a
  spliced list is consistent and shares no element with the destination), yields a
  consistent list again. \<open>consistent h l xs\<close> says that head and tail are nil exactly
  when the sequence \<open>xs\<close> is empty, that otherwise they are its first and last element,
  with no predecessor and no successor, and that each element's next is the following
  element of \<open>xs\<close> and each element's prev the preceding one, so that \<open>length xs\<close>
  steps lead from head past tail and back.
\<close>

theorem invariant_preserved:
  assumes "consistent h l xs"
  shows "(case Reset l h of (l', h') \<Rightarrow> consistent h' l' []) \<and>
         (e \<notin> set xs \<longrightarrow>
            (case PushFront l h e of (l', h') \<Rightarrow> consistent h' l' (e # xs)) \<and>
            (case PushBack l h e of (l', h') \<Rightarrow> consistent h' l' (xs @ [e]))) \<and>
         (consistent h m ys \<and> set xs \<inter> set ys = {} \<longrightarrow>
            (case PushFrontList l m h of None \<Rightarrow> False
             | Some (l', m', h') \<Rightarrow> consistent h' l' (ys @ xs) \<and> consistent h' m' []) \<and>
            (case PushBackList l m h of None \<Rightarrow> False
             | Some (l', m', h') \<Rightarrow> consistent h' l' (xs @ ys) \<and> consistent h' m' [])) \<and>
         (b \<in> set xs \<and> e \<notin> set xs \<longrightarrow>
            (case InsertAfter l h b e of (l', h') \<Rightarrow> consistent h' l' (insert_after b e xs)) \<and>
            (case InsertBefore l h b e of (l', h') \<Rightarrow> consistent h' l' (insert_before b e xs))) \<and>
         (r \<in> set xs \<longrightarrow>
            (case Remove l h r of (l', h') \<Rightarrow> consistent h' l' (remove1 r xs)))"
proof -
  from assms have inv: "list_inv h l xs"
    by (simp add: consistent_iff)
  have 1: "case Reset l h of (l', h') \<Rightarrow> consistent h' l' []"
    by (simp add: Reset_def consistent_iff list_inv_def)
  have 2: "case PushFront l h e of (l', h') \<Rightarrow> consistent h' l' (e # xs)" if "e \<notin> set xs"
    using PushFront_spec [OF inv that] by (auto simp: consistent_iff)
  have 3: "case PushBack l h e of (l', h') \<Rightarrow> consistent h' l' (xs @ [e])" if "e \<notin> set xs"
    using PushBack_spec [OF inv that] by (auto simp: consistent_iff)
  have 4: "case PushFrontList l m h of None \<Rightarrow> False
             | Some (l', m', h') \<Rightarrow> consistent h' l' (ys @ xs) \<and> consistent h' m' []"
    if "consistent h m ys \<and> set xs \<inter> set ys = {}"
    using PushFrontList_spec [OF inv, of m ys] that
    by (auto simp: consistent_iff split: option.splits)
  have 5: "case PushBackList l m h of None \<Rightarrow> False
             | Some (l', m', h') \<Rightarrow> consistent h' l' (xs @ ys) \<and> consistent h' m' []"
    if "consistent h m ys \<and> set xs \<inter> set ys = {}"
    using PushBackList_spec [OF inv, of m ys] that
    by (auto simp: consistent_iff split: option.splits)
  have 6: "case InsertAfter l h b e of (l', h') \<Rightarrow> consistent h' l' (insert_after b e xs)"
    if "b \<in> set xs \<and> e \<notin> set xs"
    using InsertAfter_spec [OF inv, of b e] that by (auto simp: consistent_iff)
  have 7: "case InsertBefore l h b e of (l', h') \<Rightarrow> consistent h' l' (insert_before b e xs)"
    if "b \<in> set xs \<and> e \<notin> set xs"
    using InsertBefore_spec [OF inv, of b e] that by (auto simp: consistent_iff)
  have 8: "case Remove l h r of (l', h') \<Rightarrow> consistent h' l' (remove1 r xs)" if "r \<in> set xs"
    using Remove_spec [OF assms that] by (auto split: prod.splits)
  show ?thesis
    apply (intro conjI impI)
           apply (rule 1)
          apply (rule 2, assumption)
         apply (rule 3, assumption)
        apply (rule 4, assumption)
       apply (rule 5, assumption)
      apply (rule 6, assumption)
     apply (rule 7, assumption)
    apply (rule 8, assumption)
    done
qed

theorem invariant_preserved_witness:
  "consistent ex_store ex_l [1, 2, 3] \<and> (6::nat) \<notin> set [1, 2, 3] \<and>
   consistent ex_store ex_m [4, 5] \<and> set [1, 2, 3::nat] \<inter> set [4, 5] = {} \<and>
   (2::nat) \<in> set [1, 2, 3] \<and>
   (case Reset ex_l ex_store of (l', h') \<Rightarrow> consistent h' l' []) \<and>
   (case PushFront ex_l ex_store 6 of (l', h') \<Rightarrow> consistent h' l' [6, 1, 2, 3]) \<and>
   (case PushBack ex_l ex_store 6 of (l', h') \<Rightarrow> consistent h' l' [1, 2, 3, 6]) \<and>
   (case PushFrontList ex_l ex_m ex_store of None \<Rightarrow> False
    | Some (l', m', h') \<Rightarrow> consistent h' l' [4, 5, 1, 2, 3] \<and> consistent h' m' []) \<and>
   (case PushBackList ex_l ex_m ex_store of None \<Rightarrow> False
    | Some (l', m', h') \<Rightarrow> consistent h' l' [1, 2, 3, 4, 5] \<and> consistent h' m' []) \<and>
   (case InsertAfter ex_l ex_store 2 6 of (l', h') \<Rightarrow> consistent h' l' [1, 2, 6, 3]) \<and>
   (case InsertBefore ex_l ex_store 2 6 of (l', h') \<Rightarrow> consistent h' l' [1, 6, 2, 3]) \<and>
   (case Remove ex_l ex_store 2 of (l', h') \<Rightarrow> consistent h' l' [1, 3])"
  using invariant_preserved [of ex_store ex_l "[1, 2, 3]" 6 ex_m "[4, 5]" 2 2] ex_l_inv ex_m_inv
  by (simp add: consistent_iff cong: option.case_cong)

section \<open>Splicing\<close>

text \<open>
  C3, as stated, has the two orders exchanged: it asks for the elements of \<open>m\<close>
  followed by those of \<open>l\<close> after \<^verbatim>\<open>PushBackList\<close> and for the elements of \<open>l\<close>
  followed by those of \<open>m\<close> after \<^verbatim>\<open>PushFrontList\<close>. On the lists 1, 2, 3 and
  4, 5 neither holds.
\<close>

theorem splice_order_counterexample:
  "consistent ex_store ex_l [1, 2, 3] \<and> consistent ex_store ex_m [4, 5] \<and>
   PushBackList ex_l ex_m ex_store \<noteq> None \<and>
   Iterate (fst (the (PushBackList ex_l ex_m ex_store)))
           (snd (snd (the (PushBackList ex_l ex_m ex_store)))) \<noteq> Some ([4, 5] @ [1, 2, 3]) \<and>
   PushFrontList ex_l ex_m ex_store \<noteq> None \<and>
   Iterate (fst (the (PushFrontList ex_l ex_m ex_store)))
           (snd (snd (the (PushFrontList ex_l ex_m ex_store)))) \<noteq> Some ([1, 2, 3] @ [4, 5])"
  using ex_l_inv ex_m_inv
  by (simp add: consistent_iff PushBackList_def PushFrontList_def ex_l_def ex_m_def
      ex_store_def Iterate_def Front_def Next_def SetNext_def SetPrev_def)

text \<open>
  C3, amended. For consistent lists \<open>l\<close> and \<open>m\<close> without a common element, both
  splices return, \<open>m\<close> is empty afterwards, and iterating \<open>l\<close> yields the former
  elements of \<open>m\<close> followed by those of \<open>l\<close> after \<^verbatim>\<open>PushFrontList\<close>, and the
  elements of \<open>l\<close> followed by those of \<open>m\<close> after \<^verbatim>\<open>PushBackList\<close>. When
  \<open>l\<close> was empty it takes over head and tail of \<open>m\<close>, when \<open>m\<close> was empty it
  keeps its own, and in both cases no link field is written.
\<close>

theorem splice_order:
  "consistent h l xs \<and> consistent h m ys \<and> set xs \<inter> set ys = {} \<longrightarrow>
     (case PushFrontList l m h of None \<Rightarrow> False
      | Some (l', m', h') \<Rightarrow>
          Empty m' \<and> Iterate l' h' = Some (ys @ xs) \<and>
          (Empty l \<longrightarrow> head l' = head m \<and> tail l' = tail m \<and> h' = h) \<and>
          (Empty m \<longrightarrow> head l' = head l \<and> tail l' = tail l \<and> h' = h)) \<and>
     (case PushBackList l m h of None \<Rightarrow> False
      | Some (l', m', h') \<Rightarrow>
          Empty m' \<and> Iterate l' h' = Some (xs @ ys) \<and>
          (Empty l \<longrightarrow> head l' = head m \<and> tail l' = tail m \<and> h' = h) \<and>
          (Empty m \<longrightarrow> head l' = head l \<and> tail l' = tail l \<and> h' = h))"
proof (intro impI conjI)
  assume a: "consistent h l xs \<and> consistent h m ys \<and> set xs \<inter> set ys = {}"
  then have il: "list_inv h l xs" and im: "list_inv h m ys" and d: "set xs \<inter> set ys = {}"
    by (simp_all add: consistent_iff)
  have el: "Empty l \<longleftrightarrow> xs = []" and em: "Empty m \<longleftrightarrow> ys = []"
    using il im by (cases xs; cases ys; simp add: list_inv_def Empty_def)+
  show "case PushFrontList l m h of None \<Rightarrow> False
      | Some (l', m', h') \<Rightarrow>
          Empty m' \<and> Iterate l' h' = Some (ys @ xs) \<and>
          (Empty l \<longrightarrow> head l' = head m \<and> tail l' = tail m \<and> h' = h) \<and>
          (Empty m \<longrightarrow> head l' = head l \<and> tail l' = tail l \<and> h' = h)"
    using PushFrontList_spec [OF il im d] el em
    by (auto split: option.splits simp: list_inv_observe(3) list_inv_Nil Empty_def)
  show "case PushBackList l m h of None \<Rightarrow> False
      | Some (l', m', h') \<Rightarrow>
          Empty m' \<and> Iterate l' h' = Some (xs @ ys) \<and>
          (Empty l \<longrightarrow> head l' = head m \<and> tail l' = tail m \<and> h' = h) \<and>
          (Empty m \<longrightarrow> head l' = head l \<and> tail l' = tail l \<and> h' = h)"
    using PushBackList_spec [OF il im d] el em
    by (auto split: option.splits simp: list_inv_observe(3) list_inv_Nil Empty_def)
qed

theorem splice_order_witness:
  "consistent ex_store ex_l [1, 2, 3] \<and> consistent ex_store ex_m [4, 5] \<and>
   set [1, 2, 3::nat] \<inter> set [4, 5] = {} \<and>
   (case PushFrontList ex_l ex_m ex_store of None \<Rightarrow> False
    | Some (l', m', h') \<Rightarrow> Empty m' \<and> Iterate l' h' = Some [4, 5, 1, 2, 3]) \<and>
   (case PushBackList ex_l ex_m ex_store of None \<Rightarrow> False
    | Some (l', m', h') \<Rightarrow> Empty m' \<and> Iterate l' h' = Some [1, 2, 3, 4, 5])"
  using splice_order [of ex_store ex_l "[1, 2, 3]" ex_m "[4, 5]"] ex_l_inv ex_m_inv
  by (auto simp: consistent_iff split: option.splits)

section \<open>Insertion at the ends\<close>

text \<open>
  C4. On a consistent list and an element \<open>e\<close> that is not a member,
  \<^verbatim>\<open>PushFront\<close> makes \<open>e\<close> the head, with no predecessor, with the former head as
  its successor and itself as the predecessor of the former head; the tail becomes
  \<open>e\<close> when the list was empty and stays otherwise. \<^verbatim>\<open>PushBack\<close> is the mirror
  image. Pushing three distinct elements A, B, C to the back of the empty list, on any
  store, gives front A, back C and length 3.
\<close>

theorem Push_ends:
  "(consistent h l xs \<and> e \<notin> set xs \<longrightarrow>
      (case PushFront l h e of (l', h') \<Rightarrow>
         Front l' = Some e \<and> Prev h' e = None \<and> Next h' e = Front l \<and>
         (\<forall>x. Front l = Some x \<longrightarrow> Prev h' x = Some e) \<and>
         Back l' = (if Empty l then Some e else Back l) \<and>
         consistent h' l' (e # xs)) \<and>
      (case PushBack l h e of (l', h') \<Rightarrow>
         Back l' = Some e \<and> Next h' e = None \<and> Prev h' e = Back l \<and>
         (\<forall>x. Back l = Some x \<longrightarrow> Next h' x = Some e) \<and>
         Front l' = (if Empty l then Some e else Front l) \<and>
         consistent h' l' (xs @ [e]))) \<and>
   (distinct [A, B, C] \<longrightarrow>
      (case PushBack \<lparr>head = None, tail = None\<rparr> h0 A of (l1, h1) \<Rightarrow>
       case PushBack l1 h1 B of (l2, h2) \<Rightarrow>
       case PushBack l2 h2 C of (l3, h3) \<Rightarrow>
         Front l3 = Some A \<and> Back l3 = Some C \<and> Len l3 h3 = Some 3))"
proof (intro conjI impI)
  assume a: "consistent h l xs \<and> e \<notin> set xs"
  then have inv: "list_inv h l xs" and e: "e \<notin> set xs"
    by (simp_all add: consistent_iff)
  show "case PushFront l h e of (l', h') \<Rightarrow>
         Front l' = Some e \<and> Prev h' e = None \<and> Next h' e = Front l \<and>
         (\<forall>x. Front l = Some x \<longrightarrow> Prev h' x = Some e) \<and>
         Back l' = (if Empty l then Some e else Back l) \<and>
         consistent h' l' (e # xs)"
    using PushFront_spec [OF inv e] by (cases "PushFront l h e") (simp add: consistent_iff)
  show "case PushBack l h e of (l', h') \<Rightarrow>
         Back l' = Some e \<and> Next h' e = None \<and> Prev h' e = Back l \<and>
         (\<forall>x. Back l = Some x \<longrightarrow> Next h' x = Some e) \<and>
         Front l' = (if Empty l then Some e else Front l) \<and>
         consistent h' l' (xs @ [e])"
    using PushBack_spec [OF inv e] by (cases "PushBack l h e") (simp add: consistent_iff)
next
  assume d: "distinct [A, B, C]"
  obtain l1 h1 where p1: "PushBack \<lparr>head = None, tail = None\<rparr> h0 A = (l1, h1)"
    by (cases "PushBack \<lparr>head = None, tail = None\<rparr> h0 A")
  obtain l2 h2 where p2: "PushBack l1 h1 B = (l2, h2)"
    by (cases "PushBack l1 h1 B")
  obtain l3 h3 where p3: "PushBack l2 h2 C = (l3, h3)"
    by (cases "PushBack l2 h2 C")
  have i1: "list_inv h1 l1 [A]"
    using PushBack_spec [OF list_inv_empty _ p1] by simp
  have i2: "list_inv h2 l2 [A, B]"
    using PushBack_spec [OF i1 _ p2] d by auto
  have i3: "list_inv h3 l3 [A, B, C]"
    using PushBack_spec [OF i2 _ p3] d by auto
  show "case PushBack \<lparr>head = None, tail = None\<rparr> h0 A of (l1, h1) \<Rightarrow>
       case PushBack l1 h1 B of (l2, h2) \<Rightarrow>
       case PushBack l2 h2 C of (l3, h3) \<Rightarrow>
         Front l3 = Some A \<and> Back l3 = Some C \<and> Len l3 h3 = Some 3"
    using list_inv_observe(1,2,5) [OF i3] by (simp add: p1 p2 p3)
qed

theorem Push_ends_witness:
  "consistent ex_store ex_l [1, 2, 3] \<and> (6::nat) \<notin> set [1, 2, 3] \<and> distinct [7, 8, 9::nat] \<and>
   (case PushFront ex_l ex_store 6 of (l', h') \<Rightarrow>
      Front l' = Some 6 \<and> Prev h' 6 = None \<and> Next h' 6 = Some 1 \<and> Prev h' 1 = Some 6 \<and>
      Back l' = Some 3 \<and> consistent h' l' [6, 1, 2, 3]) \<and>
   (case PushBack ex_l ex_store 6 of (l', h') \<Rightarrow>
      Back l' = Some 6 \<and> Next h' 6 = None \<and> Prev h' 6 = Some 3 \<and> Next h' 3 = Some 6 \<and>
      Front l' = Some 1 \<and> consistent h' l' [1, 2, 3, 6]) \<and>
   (case PushBack \<lparr>head = None, tail = None\<rparr> ex_store 7 of (l1, h1) \<Rightarrow>
    case PushBack l1 h1 8 of (l2, h2) \<Rightarrow>
    case PushBack l2 h2 9 of (l3, h3) \<Rightarrow>
      Front l3 = Some 7 \<and> Back l3 = Some 9 \<and> Len l3 h3 = Some 3)"
  using Push_ends [of ex_store ex_l "[1, 2, 3]" 6 7 8 9 ex_store] ex_l_inv
  by (simp add: consistent_iff Front_def Back_def Empty_def ex_l_def split: prod.splits)

section \<open>Insertion at a position\<close>

text \<open>
  C5. On a consistent list with member \<open>b\<close> and an element \<open>e\<close> that is not a
  member, after \<^verbatim>\<open>InsertAfter(b, e)\<close> the successor of \<open>b\<close> is \<open>e\<close> and the
  predecessor of \<open>e\<close> is \<open>b\<close>, and the back of the list is \<open>e\<close> if it was \<open>b\<close>
  and unchanged otherwise; after \<^verbatim>\<open>InsertBefore(b, e)\<close> the predecessor of \<open>b\<close>
  is \<open>e\<close> and the successor of \<open>e\<close> is \<open>b\<close>, and the front is \<open>e\<close> if it was
  \<open>b\<close> and unchanged otherwise.
\<close>

theorem Insert_adjacent:
  "consistent h l xs \<and> b \<in> set xs \<and> e \<notin> set xs \<longrightarrow>
     (case InsertAfter l h b e of (l', h') \<Rightarrow>
        Next h' b = Some e \<and> Prev h' e = Some b \<and> Next h' e = Next h b \<and>
        (\<forall>x. Next h b = Some x \<longrightarrow> Prev h' x = Some e) \<and>
        Back l' = (if Back l = Some b then Some e else Back l) \<and> Front l' = Front l \<and>
        consistent h' l' (insert_after b e xs)) \<and>
     (case InsertBefore l h b e of (l', h') \<Rightarrow>
        Prev h' b = Some e \<and> Next h' e = Some b \<and> Prev h' e = Prev h b \<and>
        (\<forall>x. Prev h b = Some x \<longrightarrow> Next h' x = Some e) \<and>
        Front l' = (if Front l = Some b then Some e else Front l) \<and> Back l' = Back l \<and>
        consistent h' l' (insert_before b e xs))"
proof (intro impI conjI)
  assume "consistent h l xs \<and> b \<in> set xs \<and> e \<notin> set xs"
  then have inv: "list_inv h l xs" and b: "b \<in> set xs" and e: "e \<notin> set xs"
    by (simp_all add: consistent_iff)
  show "case InsertAfter l h b e of (l', h') \<Rightarrow>
        Next h' b = Some e \<and> Prev h' e = Some b \<and> Next h' e = Next h b \<and>
        (\<forall>x. Next h b = Some x \<longrightarrow> Prev h' x = Some e) \<and>
        Back l' = (if Back l = Some b then Some e else Back l) \<and> Front l' = Front l \<and>
        consistent h' l' (insert_after b e xs)"
    using InsertAfter_spec [OF inv b e] by (cases "InsertAfter l h b e") (simp add: consistent_iff)
  show "case InsertBefore l h b e of (l', h') \<Rightarrow>
        Prev h' b = Some e \<and> Next h' e = Some b \<and> Prev h' e = Prev h b \<and>
        (\<forall>x. Prev h b = Some x \<longrightarrow> Next h' x = Some e) \<and>
        Front l' = (if Front l = Some b then Some e else Front l) \<and> Back l' = Back l \<and>
        consistent h' l' (insert_before b e xs)"
    using InsertBefore_spec [OF inv b e] by (cases "InsertBefore l h b e") (simp add: consistent_iff)
qed

theorem Insert_adjacent_witness:
  "consistent ex_store ex_l [1, 2, 3] \<and> (3::nat) \<in> set [1, 2, 3] \<and> (6::nat) \<notin> set [1, 2, 3] \<and>
   (case InsertAfter ex_l ex_store 3 6 of (l', h') \<Rightarrow>
      Next h' 3 = Some 6 \<and> Prev h' 6 = Some 3 \<and> Back l' = Some 6 \<and>
      consistent h' l' [1, 2, 3, 6]) \<and>
   (case InsertBefore ex_l ex_store 3 6 of (l', h') \<Rightarrow>
      Prev h' 3 = Some 6 \<and> Next h' 6 = Some 3 \<and> Front l' = Some 1 \<and>
      consistent h' l' [1, 2, 6, 3])"
  using Insert_adjacent [of ex_store ex_l "[1, 2, 3]" 3 6] ex_l_inv
  by (simp add: consistent_iff Front_def Back_def ex_l_def split: prod.splits)

section \<open>Replaying operations\<close>

text \<open>
  C6. After any sequence of \<^verbatim>\<open>PushFront\<close>, \<^verbatim>\<open>PushBack\<close> and \<^verbatim>\<open>Remove\<close> calls
  on the empty list, each insertion of an element that is not a member and each removal
  of a member, \<^verbatim>\<open>Len\<close> returns the number of insertions minus the number of
  removals, and the iteration from the front along next returns the reverse of the
  iteration from the back along prev.
\<close>

theorem replay_Len:
  "ops_ok (\<lparr>head = None, tail = None\<rparr>, h) ops \<longrightarrow>
     (case replay (\<lparr>head = None, tail = None\<rparr>, h) ops of (l', h') \<Rightarrow>
        Len l' h' = Some (int (count_inserts ops) - int (count_removes ops)) \<and>
        Iterate l' h' \<noteq> None \<and> Iterate l' h' = map_option rev (IterateBack l' h'))"
proof
  assume "ops_ok (\<lparr>head = None, tail = None\<rparr>, h) ops"
  from replay_inv [OF list_inv_empty this] obtain l' h' ys
    where r: "replay (\<lparr>head = None, tail = None\<rparr>, h) ops = (l', h')" and inv: "list_inv h' l' ys"
      and len: "int (length ys) = int (count_inserts ops) - int (count_removes ops)"
    by auto
  show "case replay (\<lparr>head = None, tail = None\<rparr>, h) ops of (l', h') \<Rightarrow>
        Len l' h' = Some (int (count_inserts ops) - int (count_removes ops)) \<and>
        Iterate l' h' \<noteq> None \<and> Iterate l' h' = map_option rev (IterateBack l' h')"
    using list_inv_observe(3,4,5) [OF inv] len by (simp add: r)
qed

theorem replay_Len_witness:
  "ops_ok (\<lparr>head = None, tail = None\<rparr>, ex_store) [OpPushBack 1, OpPushFront 2, OpPushBack 3, OpRemove 1] \<and>
   (case replay (\<lparr>head = None, tail = None\<rparr>, ex_store) [OpPushBack 1, OpPushFront 2, OpPushBack 3, OpRemove 1]
    of (l', h') \<Rightarrow> Len l' h' = Some 2 \<and> Iterate l' h' \<noteq> None \<and>
         Iterate l' h' = map_option rev (IterateBack l' h'))"
proof -
  let ?ops = "[OpPushBack 1, OpPushFront 2, OpPushBack 3, OpRemove (1::nat)]"
  have ok: "ops_ok (\<lparr>head = None, tail = None\<rparr>, ex_store) ?ops"
    by (simp add: PushBack_def PushFront_def Remove_def Iterate_def Front_def Let_def)
  have n: "int (count_inserts ?ops) - int (count_removes ?ops) = 2"
    by (simp add: count_inserts_def count_removes_def)
  from replay_Len [of ex_store ?ops] ok
  have "case replay (\<lparr>head = None, tail = None\<rparr>, ex_store) ?ops of (l', h') \<Rightarrow>
      Len l' h' = Some (int (count_inserts ?ops) - int (count_removes ?ops)) \<and>
      Iterate l' h' \<noteq> None \<and> Iterate l' h' = map_option rev (IterateBack l' h')"
    by (rule mp)
  with ok show ?thesis
    unfolding n by (rule conjI)
qed

section \<open>Rings\<close>

text \<open>
  C7. In a ring of \<open>n\<close> elements, \<open>n\<close> calls of \<^verbatim>\<open>Next()\<close> from any member lead
  back to it, and so do \<open>n\<close> calls of \<^verbatim>\<open>Prev()\<close>; fewer than \<open>n\<close> calls from
  the member at position \<open>i\<close> lead to the member \<open>k\<close> positions further in the cyclic
  order, so each member is visited once, and the same number of \<^verbatim>\<open>Prev()\<close> calls
  leads back. \<^verbatim>\<open>RingInit\<close> makes a ring of one element. \<^verbatim>\<open>RingAdd(old, new)\<close> on a
  ring with member \<open>old\<close> and an element \<open>new\<close> outside it returns, with \<open>new\<close> the
  successor of \<open>old\<close>, \<open>old\<close> the predecessor of \<open>new\<close>, the former successor of
  \<open>old\<close> the successor of \<open>new\<close>, and the ring grown by \<open>new\<close> right after
  \<open>old\<close>; a ring of the single element \<open>old\<close> is included.
\<close>

theorem ring_cycle_and_add:
  "(ring h xs \<and> i < length xs \<longrightarrow>
      nexts h (length xs) (xs ! i) = Some (xs ! i) \<and>
      prevs h (length xs) (xs ! i) = Some (xs ! i) \<and>
      (\<forall>k<length xs. nexts h k (xs ! i) = Some (xs ! ((i + k) mod length xs)) \<and>
                      prevs h k (xs ! ((i + k) mod length xs)) = Some (xs ! i))) \<and>
   (ring h xs \<and> e \<in> set xs \<longrightarrow>
      nexts h (length xs) e = Some e \<and> prevs h (length xs) e = Some e) \<and>
   ring (stringRingInit h e) [e] \<and>
   (ring h xs \<and> old \<in> set xs \<and> new \<notin> set xs \<longrightarrow>
      (case stringRingAdd h old new of None \<Rightarrow> False
       | Some h' \<Rightarrow> Next h' old = Some new \<and> Prev h' new = Some old \<and>
           Next h' new = Next h old \<and> ring h' (insert_after old new xs)))"
proof (intro conjI impI)
  assume a: "ring h xs \<and> i < length xs"
  then show "nexts h (length xs) (xs ! i) = Some (xs ! i)"
    and "prevs h (length xs) (xs ! i) = Some (xs ! i)"
    and "\<forall>k<length xs. nexts h k (xs ! i) = Some (xs ! ((i + k) mod length xs)) \<and>
                      prevs h k (xs ! ((i + k) mod length xs)) = Some (xs ! i)"
    by (simp_all add: ring_cycle)
next
  assume a: "ring h xs \<and> e \<in> set xs"
  then obtain j where "j < length xs" and "e = xs ! j"
    by (auto simp: in_set_conv_nth)
  with a show "nexts h (length xs) e = Some e" and "prevs h (length xs) e = Some e"
    by (simp_all add: ring_cycle)
next
  show "ring (stringRingInit h e) [e]"
    by (rule RingInit_ring)
next
  assume a: "ring h xs \<and> old \<in> set xs \<and> new \<notin> set xs"
  then obtain us vs where xs: "xs = us @ old # vs" and us: "old \<notin> set us"
    by (auto dest: split_list_first)
  have eq: "insert_after old new xs = us @ old # new # vs"
    by (simp add: xs insert_after_split [OF us])
  from a have "ring h (us @ old # vs)" and "new \<notin> set (us @ old # vs)"
    by (simp_all add: xs)
  from RingAdd_split [OF this]
  show "case stringRingAdd h old new of None \<Rightarrow> False
       | Some h' \<Rightarrow> Next h' old = Some new \<and> Prev h' new = Some old \<and>
           Next h' new = Next h old \<and> ring h' (insert_after old new xs)"
    unfolding eq .
qed

theorem ring_cycle_and_add_witness:
  "ring ex_store [7, 8, 9] \<and> (1::nat) < length [7, 8, 9::nat] \<and> (8::nat) \<in> set [7, 8, 9] \<and>
   (6::nat) \<notin> set [7, 8, 9] \<and>
   nexts ex_store 3 8 = Some 8 \<and> prevs ex_store 3 8 = Some 8 \<and>
   (case stringRingAdd ex_store 8 6 of None \<Rightarrow> False
    | Some h' \<Rightarrow> Next h' 8 = Some 6 \<and> Prev h' 6 = Some 8 \<and> Next h' 6 = Some 9 \<and>
        ring h' [7, 8, 6, 9]) \<and>
   ring ex_rings [3] \<and> (3::nat) \<in> set [3] \<and> (6::nat) \<notin> set [3] \<and>
   (case stringRingAdd ex_rings 3 6 of None \<Rightarrow> False
    | Some h' \<Rightarrow> Next h' 3 = Some 6 \<and> Prev h' 6 = Some 3 \<and> Next h' 6 = Some 3 \<and>
        ring h' [3, 6])"
proof -
  note t1 = ring_cycle_and_add [of ex_store "[7, 8, 9]" 1 8 8 6]
  note t2 = ring_cycle_and_add [of ex_rings "[3]" 0 3 3 6]
  have h1: "ring ex_store [7, 8, 9] \<and> (1::nat) < length [7, 8, 9::nat]"
    and h2: "ring ex_store [7, 8, 9] \<and> (8::nat) \<in> set [7, 8, 9]"
    and h3: "ring ex_store [7, 8, 9] \<and> (8::nat) \<in> set [7, 8, 9] \<and> (6::nat) \<notin> set [7, 8, 9]"
    and h4: "ring ex_rings [3] \<and> (3::nat) \<in> set [3] \<and> (6::nat) \<notin> set [3]"
    by (simp_all add: ex_ring)
  have e: "length [7, 8, 9::nat] = 3" "insert_after 8 6 [7, 8, 9::nat] = [7, 8, 6, 9]"
    "insert_after 3 6 [3::nat] = [3, 6]"
    "Next ex_store 8 = Some 9" "Next ex_rings 3 = Some 3"
    by (simp_all add: ex_store_def ex_rings_def Next_def)
  note c2 = t1 [THEN conjunct2, THEN conjunct1, THEN mp, OF h2, unfolded e]
  note c3 = t1 [THEN conjunct2, THEN conjunct2, THEN conjunct2, THEN mp, OF h3, unfolded e]
  note c4 = t2 [THEN conjunct2, THEN conjunct2, THEN conjunct2, THEN mp, OF h4, unfolded e]
  from h1 h3 h4 c2 c3 c4 show ?thesis
    by simp
qed

text \<open>
  C8. \<^verbatim>\<open>RingRemove(e)\<close> on a ring with member \<open>e\<close> returns; afterwards \<open>e\<close> is its
  own successor and predecessor, so \<^verbatim>\<open>RingEmpty(e)\<close> holds and \<open>e\<close> is a ring of one
  element; the former predecessor and successor of \<open>e\<close> are linked to each other; the
  other members, if any, form a ring in their former order, and when there is exactly
  one of them, it is a ring of one element.
\<close>

theorem RingRemove_relinks:
  "ring h xs \<and> e \<in> set xs \<longrightarrow>
     (case stringRingRemove h e of None \<Rightarrow> False
      | Some h' \<Rightarrow>
          Next h' e = Some e \<and> Prev h' e = Some e \<and> stringRingEmpty h' e \<and> ring h' [e] \<and>
          (\<forall>p n. Prev h e = Some p \<and> Next h e = Some n \<longrightarrow>
             Next h' p = Some n \<and> Prev h' n = Some p) \<and>
          (remove1 e xs \<noteq> [] \<longrightarrow> ring h' (remove1 e xs)) \<and>
          (\<forall>x. remove1 e xs = [x] \<longrightarrow> stringRingEmpty h' x))"
proof
  assume a: "ring h xs \<and> e \<in> set xs"
  then obtain us vs where xs: "xs = us @ e # vs" and us: "e \<notin> set us"
    by (auto dest: split_list_first)
  have eq: "remove1 e xs = us @ vs"
    by (simp add: xs remove1_split [OF us])
  from a have r: "ring h (us @ e # vs)"
    by (simp add: xs)
  show "case stringRingRemove h e of None \<Rightarrow> False
      | Some h' \<Rightarrow>
          Next h' e = Some e \<and> Prev h' e = Some e \<and> stringRingEmpty h' e \<and> ring h' [e] \<and>
          (\<forall>p n. Prev h e = Some p \<and> Next h e = Some n \<longrightarrow>
             Next h' p = Some n \<and> Prev h' n = Some p) \<and>
          (remove1 e xs \<noteq> [] \<longrightarrow> ring h' (remove1 e xs)) \<and>
          (\<forall>x. remove1 e xs = [x] \<longrightarrow> stringRingEmpty h' x)"
  proof (cases "stringRingRemove h e")
    case None
    with RingRemove_split [OF r] show ?thesis
      by simp
  next
    case (Some h')
    with RingRemove_split [OF r]
    have 1: "Next h' e = Some e" and 2: "Prev h' e = Some e"
      and 3: "\<forall>p n. Prev h e = Some p \<and> Next h e = Some n \<longrightarrow>
                Next h' p = Some n \<and> Prev h' n = Some p"
      and 4: "us @ vs \<noteq> [] \<longrightarrow> ring h' (us @ vs)"
      by simp_all
    have 5: "stringRingEmpty h' x" if "us @ vs = [x]" for x
      using 4 that by (simp add: ring_single stringRingEmpty_def)
    from 1 2 3 4 5 show ?thesis
      unfolding Some eq by (simp add: ring_single stringRingEmpty_def)
  qed
qed

theorem RingRemove_relinks_witness:
  "ring ex_store [7, 8, 9] \<and> (8::nat) \<in> set [7, 8, 9] \<and>
   (case stringRingRemove ex_store 8 of None \<Rightarrow> False
    | Some h' \<Rightarrow> stringRingEmpty h' 8 \<and> Next h' 7 = Some 9 \<and> Prev h' 9 = Some 7 \<and>
        ring h' [7, 9]) \<and>
   ring ex_rings [4, 5] \<and> (4::nat) \<in> set [4, 5] \<and>
   (case stringRingRemove ex_rings 4 of None \<Rightarrow> False
    | Some h' \<Rightarrow> stringRingEmpty h' 4 \<and> stringRingEmpty h' 5) \<and>
   ring ex_rings [3] \<and> (3::nat) \<in> set [3] \<and>
   (case stringRingRemove ex_rings 3 of None \<Rightarrow> False
    | Some h' \<Rightarrow> stringRingEmpty h' 3)"
proof -
  have h1: "ring ex_store [7, 8, 9] \<and> (8::nat) \<in> set [7, 8, 9]"
    and h2: "ring ex_rings [4, 5] \<and> (4::nat) \<in> set [4, 5]"
    and h3: "ring ex_rings [3] \<and> (3::nat) \<in> set [3]"
    by (simp_all add: ex_ring)
  have n: "Next ex_store 8 = Some 9" "Prev ex_store 8 = Some 7"
    by (simp_all add: ex_store_def Next_def Prev_def)
  have c1: "case stringRingRemove ex_store 8 of None \<Rightarrow> False
    | Some h' \<Rightarrow> stringRingEmpty h' 8 \<and> Next h' 7 = Some 9 \<and> Prev h' 9 = Some 7 \<and>
        ring h' [7, 9]"
    using mp [OF RingRemove_relinks [of ex_store "[7, 8, 9]" 8] h1] n
    by (cases "stringRingRemove ex_store 8") simp_all
  have c2: "case stringRingRemove ex_rings 4 of None \<Rightarrow> False
    | Some h' \<Rightarrow> stringRingEmpty h' 4 \<and> stringRingEmpty h' 5"
    using mp [OF RingRemove_relinks [of ex_rings "[4, 5]" 4] h2]
    by (cases "stringRingRemove ex_rings 4") simp_all
  have c3: "case stringRingRemove ex_rings 3 of None \<Rightarrow> False
    | Some h' \<Rightarrow> stringRingEmpty h' 3"
    using mp [OF RingRemove_relinks [of ex_rings "[3]" 3] h3]
    by (cases "stringRingRemove ex_rings 3") simp_all
  from h1 h2 h3 c1 c2 c3 show ?thesis
    by simp
qed

end
